theory Spec2Isabelle
  imports Complex_Main "HOL-Library.Sublist" "HOL-Library.Log_Nat"
begin

section \<open>Event-camera recording helpers: \<^verbatim>\<open>exercise_utils.py\<close>\<close>

text \<open>
  The module is a set of helpers around an event-camera processing library: it opens a
  recording, drains its event stream, crops the events to a rectangle (in one pass over the
  aggregated stream, or batch by batch), and reports statistics. The functions of the module
  are embedded below under their own names; the library objects they call (the event store,
  the recording reader, the region filter, the logger) are modelled as far as the module
  uses them, each with the behaviour the specification gives it.
\<close>

subsection \<open>Python values and errors\<close>

datatype py_error = IndexError | OverflowError

text \<open>
  Subscripting a sequence with an integer index, as Python and numpy do it: an index below
  zero counts from the end, and an index outside the sequence raises \<open>IndexError\<close>.
\<close>

definition getitem :: "'a list \<Rightarrow> int \<Rightarrow> py_error + 'a" where
  "getitem xs i =
     (if 0 \<le> i \<and> i < int (length xs) then Inr (xs ! nat i)
      else if i < 0 \<and> - int (length xs) \<le> i then Inr (xs ! nat (int (length xs) + i))
      else Inl IndexError)"

text \<open>
  Python floats are IEEE binary64 numbers: 53 significant bits, rounding to nearest with ties
  to even, and an infinity beyond the largest exponent. The crop origin is computed from
  integers by halving and subtracting, so every float that arises there is a multiple of
  \<open>1/2\<close> (or an infinity); a finite float is modelled by its exact rational value.

  \<open>round53 n\<close> is the integer nearest to \<open>n\<close> that has at most 53 significant bits, ties
  going to the even significand. \<open>double_of_halves m\<close> is the float nearest to \<open>m/2\<close>: it
  has the significand of \<open>round53 m\<close>, and it is infinite when that value reaches
  \<open>2^1025\<close>, that is, when the float would reach \<open>2^1024\<close>.
\<close>

datatype py_float = Float rat | Inf

definition round53 :: "int \<Rightarrow> int" where
  "round53 n =
     (let k = bitlen \<bar>n\<bar>
      in if k \<le> 53 then n
         else (let s = nat (k - 53);
                   q = \<bar>n\<bar> div 2 ^ s;
                   r = \<bar>n\<bar> mod 2 ^ s;
                   half = 2 ^ (s - 1)
               in sgn n * (if half < r \<or> (r = half \<and> odd q) then q + 1 else q) * 2 ^ s))"

definition double_of_halves :: "int \<Rightarrow> py_float" where
  "double_of_halves m =
     (let r = round53 m in if 1025 < bitlen \<bar>r\<bar> then Inf else Float (of_int r / 2))"

text \<open>
  The conversion of an integer to a float (as the subtraction of a float from an integer
  does it) and the true division of an integer by \<open>2\<close> are correctly rounded and raise
  \<open>OverflowError\<close> when the result is too large for a float. The subtraction of two finite
  floats rounds the exact difference and may give an infinity; \<open>float_sub\<close> is that
  subtraction on the floats that occur here, an integer-valued one minus a multiple of
  \<open>1/2\<close>, whose exact difference is again a multiple of \<open>1/2\<close>. \<open>int(v)\<close> drops the
  fractional part of a finite float, rounding toward zero, and raises \<open>OverflowError\<close> on
  an infinity.
\<close>

definition int_as_double :: "int \<Rightarrow> py_error + rat" where
  "int_as_double n =
     (case double_of_halves (2 * n) of Inf \<Rightarrow> Inl OverflowError | Float a \<Rightarrow> Inr a)"

definition truediv_2 :: "int \<Rightarrow> py_error + rat" where
  "truediv_2 n =
     (case double_of_halves n of Inf \<Rightarrow> Inl OverflowError | Float b \<Rightarrow> Inr b)"

definition float_sub :: "rat \<Rightarrow> rat \<Rightarrow> py_float" where
  "float_sub a b = double_of_halves \<lfloor>2 * (a - b)\<rfloor>"

definition int_sub_float :: "int \<Rightarrow> rat \<Rightarrow> py_error + py_float" where
  "int_sub_float n b =
     (case int_as_double n of Inl e \<Rightarrow> Inl e | Inr a \<Rightarrow> Inr (float_sub a b))"

definition int_part :: "rat \<Rightarrow> int" where
  "int_part q = (if q < 0 then - \<lfloor>- q\<rfloor> else \<lfloor>q\<rfloor>)"

definition py_int :: "py_float \<Rightarrow> py_error + int" where
  "py_int v = (case v of Inf \<Rightarrow> Inl OverflowError | Float q \<Rightarrow> Inr (int_part q))"

subsection \<open>Events and event stores\<close>

text \<open>
  Modelled from the spec: an event is a timestamped pixel coordinate with a polarity; an
  event store (the spec's EventCollection) is an ordered, appendable aggregate of events,
  queryable for its size, its duration (the span between the first and the last timestamp)
  and its ordered timestamp sequence.
\<close>

record event =
  timestamp :: int
  x :: int
  y :: int
  polarity :: bool

type_synonym event_store = "event list"

definition EventStore :: event_store where
  "EventStore = []"

definition add :: "event_store \<Rightarrow> event_store \<Rightarrow> event_store" where
  "add events other = events @ other"

definition size_store :: "event_store \<Rightarrow> nat" where
  "size_store events = length events"

definition timestamps :: "event_store \<Rightarrow> int list" where
  "timestamps events = map timestamp events"

definition duration :: "event_store \<Rightarrow> int" where
  "duration events =
     (case events of [] \<Rightarrow> 0 | e # _ \<Rightarrow> timestamp (last events) - timestamp e)"

subsection \<open>Recordings and readers\<close>

text \<open>
  Modelled from the spec: a recording exposes an event-stream-availability flag and a
  depletable, pull-based sequence of event batches. \<open>batches f k\<close> is what the pull
  number \<open>k\<close> returns (\<open>None\<close> is Python's \<open>None\<close>), and \<open>running f k\<close> is what
  \<open>isRunning\<close> answers after \<open>k\<close> pulls. Nothing forces \<open>running\<close> ever to become
  false: a recording may be an endless stream. A reader is a recording together with the
  number of pulls made so far; opening a recording gives a reader that has pulled nothing.
\<close>

record recording =
  eventStreamAvailable :: bool
  batches :: "nat \<Rightarrow> event_store option"
  running :: "nat \<Rightarrow> bool"

record reader =
  source :: recording
  pulled :: nat

definition MonoCameraRecording :: "recording \<Rightarrow> reader" where
  "MonoCameraRecording aedat4_file = \<lparr>source = aedat4_file, pulled = 0\<rparr>"

definition isEventStreamAvailable :: "reader \<Rightarrow> bool" where
  "isEventStreamAvailable d = eventStreamAvailable (source d)"

definition isRunning :: "reader \<Rightarrow> bool" where
  "isRunning d = running (source d) (pulled d)"

definition getNextEventBatch :: "reader \<Rightarrow> event_store option \<times> reader" where
  "getNextEventBatch d = (batches (source d) (pulled d), d\<lparr>pulled := Suc (pulled d)\<rparr>)"

subsection \<open>The logger\<close>

text \<open>
  The module configures the root logger at level INFO (20) and writes to standard output.
  The log is the list of emitted records, oldest first; a record is emitted when its level
  is at least the configured one. The time stamp of a record is not modelled.
\<close>

type_synonym log = "(nat \<times> string) list"

definition INFO :: nat where
  "INFO = 20"

definition CRITICAL :: nat where
  "CRITICAL = 50"

definition logger_level :: nat where
  "logger_level = INFO"

definition critical :: "log \<Rightarrow> string \<Rightarrow> log" where
  "critical lg msg = (if logger_level \<le> CRITICAL then lg @ [(CRITICAL, msg)] else lg)"

definition no_event_stream_message :: string where
  "no_event_stream_message =
     ''Something went wrong. The camera data does not have an event stream available.'' @ [CHR 0x0A]"

subsection \<open>The region filter\<close>

text \<open>
  Modelled from the spec: the region filter is a stateless, order-preserving transform that
  retains only the events falling within a rectangle \<open>(origin_x, origin_y, width, height)\<close>.
  \<open>accept\<close> hands events to the filter and \<open>generateEvents\<close> returns the retained ones
  among the events handed over since the last call, leaving nothing behind.
\<close>

type_synonym roi = "int \<times> int \<times> int \<times> int"

record region_filter =
  region :: roi
  buffer :: event_store

definition EventRegionFilter :: "roi \<Rightarrow> region_filter" where
  "EventRegionFilter r = \<lparr>region = r, buffer = EventStore\<rparr>"

definition retain :: "roi \<Rightarrow> event \<Rightarrow> bool" where
  "retain r e =
     (case r of (ox, oy, w, h) \<Rightarrow> ox \<le> x e \<and> x e < ox + w \<and> oy \<le> y e \<and> y e < oy + h)"

definition accept :: "region_filter \<Rightarrow> event_store \<Rightarrow> region_filter" where
  "accept rf store = rf\<lparr>buffer := add (buffer rf) store\<rparr>"

definition generateEvents :: "region_filter \<Rightarrow> event_store \<times> region_filter" where
  "generateEvents rf = (filter (retain (region rf)) (buffer rf), rf\<lparr>buffer := EventStore\<rparr>)"

subsection \<open>The functions of the module\<close>

text \<open>\<open>load_data_from\<close>: open the recording; log a critical message when it has no event
  stream; return the reader in either case.\<close>

definition load_data_from :: "log \<Rightarrow> recording \<Rightarrow> reader \<times> log" where
  "load_data_from lg aedat4_file =
     (let reader = MonoCameraRecording aedat4_file
      in if \<not> isEventStreamAvailable reader
         then (reader, critical lg no_event_stream_message)
         else (reader, lg))"

text \<open>
  \<open>get_events_from\<close>: the \<open>while data.isRunning()\<close> loop, with the store built so far as
  its accumulator. The loop has no bound of its own, so the function is partial: \<open>None\<close>
  is a loop that never ends.
\<close>

partial_function (option) get_events_loop :: "reader \<Rightarrow> event_store \<Rightarrow> event_store option" where
  "get_events_loop dat events =
     (if isRunning dat then
        (case getNextEventBatch dat of
           (temp_event_store, dat') \<Rightarrow>
             (case temp_event_store of
                Some b \<Rightarrow> get_events_loop dat' (add events b)
              | None \<Rightarrow> get_events_loop dat' events))
      else Some events)"

definition get_events_from :: "reader \<Rightarrow> event_store option" where
  "get_events_from dat = get_events_loop dat EventStore"

text \<open>
  \<open>_calculate_crop_origin\<close> (an Isabelle name cannot start with an underscore), for an
  integer center and integer sizes. Each of \<open>width / 2\<close>, \<open>center[0] - width / 2\<close> and
  \<open>int(origin_x)\<close> can raise, and so can their counterparts for \<open>y\<close>; the first that
  does ends the call.
\<close>

definition calculate_crop_origin :: "int \<times> int \<Rightarrow> int \<Rightarrow> int \<Rightarrow> py_error + int \<times> int" where
  "calculate_crop_origin center width height =
     (case truediv_2 width of Inl e \<Rightarrow> Inl e | Inr half_width \<Rightarrow>
     (case int_sub_float (fst center) half_width of Inl e \<Rightarrow> Inl e | Inr origin_x \<Rightarrow>
     (case truediv_2 height of Inl e \<Rightarrow> Inl e | Inr half_height \<Rightarrow>
     (case int_sub_float (snd center) half_height of Inl e \<Rightarrow> Inl e | Inr origin_y \<Rightarrow>
     (case py_int origin_x of Inl e \<Rightarrow> Inl e | Inr ox \<Rightarrow>
     (case py_int origin_y of Inl e \<Rightarrow> Inl e | Inr oy \<Rightarrow> Inr (ox, oy)))))))"

text \<open>
  \<open>crop_area\<close>: aggregate the whole stream, then filter it once. The outcome of a call is
  \<open>None\<close> when it never returns, \<open>Some (Inl e)\<close> when it raises \<open>e\<close>, and
  \<open>Some (Inr (events, log))\<close> when it returns \<open>events\<close>.
\<close>

definition crop_area ::
    "log \<Rightarrow> recording \<Rightarrow> int \<times> int \<Rightarrow> int \<Rightarrow> int \<Rightarrow> (py_error + event_store \<times> log) option" where
  "crop_area lg aedat4_file center crop_width crop_height =
     (case calculate_crop_origin center crop_width crop_height of
        Inl e \<Rightarrow> Some (Inl e)
      | Inr crop_origin \<Rightarrow>
          (let region_filter =
                 EventRegionFilter (fst crop_origin, snd crop_origin, crop_width, crop_height);
               (dat, lg') = load_data_from lg aedat4_file
           in case get_events_from dat of
                None \<Rightarrow> None
              | Some events \<Rightarrow>
                  (let (filtered_events, region_filter') =
                         generateEvents (accept region_filter events)
                   in Some (Inr (filtered_events, lg')))))"

text \<open>\<open>crop_area_all_event_streams\<close>: filter each batch as it arrives and keep the
  non-empty results.\<close>

partial_function (option) crop_loop ::
    "reader \<Rightarrow> region_filter \<Rightarrow> event_store \<Rightarrow> event_store option" where
  "crop_loop dat region_filter cropped_event_streams =
     (if isRunning dat then
        (case getNextEventBatch dat of
           (temp_event_store, dat') \<Rightarrow>
             (case temp_event_store of
                Some b \<Rightarrow>
                  (case generateEvents (accept region_filter b) of
                     (filtered_events, region_filter') \<Rightarrow>
                       if size_store filtered_events > 0
                       then crop_loop dat' region_filter' (add cropped_event_streams filtered_events)
                       else crop_loop dat' region_filter' cropped_event_streams)
              | None \<Rightarrow> crop_loop dat' region_filter cropped_event_streams))
      else Some cropped_event_streams)"

definition crop_area_all_event_streams ::
    "log \<Rightarrow> recording \<Rightarrow> int \<times> int \<Rightarrow> int \<Rightarrow> int \<Rightarrow> (py_error + event_store \<times> log) option" where
  "crop_area_all_event_streams lg aedat4_file center crop_width crop_height =
     (case calculate_crop_origin center crop_width crop_height of
        Inl e \<Rightarrow> Some (Inl e)
      | Inr crop_origin \<Rightarrow>
          (let region_filter =
                 EventRegionFilter (fst crop_origin, snd crop_origin, crop_width, crop_height);
               cropped_event_streams = EventStore;
               (dat, lg') = load_data_from lg aedat4_file
           in case crop_loop dat region_filter cropped_event_streams of
                None \<Rightarrow> None
              | Some events \<Rightarrow> Some (Inr (events, lg'))))"

text \<open>
  \<open>events_info\<close>: the dictionary literal evaluates its values in order, so the duration is
  read first and the two subscripts follow; the first one that raises ends the call.
\<close>

definition events_info :: "event_store \<Rightarrow> py_error + (string \<rightharpoonup> int)" where
  "events_info events =
     (let d = duration events
      in case getitem (timestamps events) 0 of
           Inl e \<Rightarrow> Inl e
         | Inr first \<Rightarrow>
             (case getitem (timestamps events) (- 1) of
                Inl e \<Rightarrow> Inl e
              | Inr lst \<Rightarrow>
                  Inr [''duration'' \<mapsto> d,
                       ''first timestamp'' \<mapsto> first,
                       ''last timestamp'' \<mapsto> lst,
                       ''events count'' \<mapsto> int (size_store events)]))"

subsection \<open>Notions used to state the properties\<close>


text \<open>\<open>pulled_batches f p n\<close>: what \<open>n\<close> successive pulls return, starting after \<open>p\<close>
  pulls; \<open>non_null\<close> keeps the batches that are not \<open>None\<close>, in order.\<close>

fun pulled_batches :: "recording \<Rightarrow> nat \<Rightarrow> nat \<Rightarrow> event_store option list" where
  "pulled_batches f p 0 = []"
| "pulled_batches f p (Suc n) = batches f p # pulled_batches f (Suc p) n"

fun non_null :: "'a option list \<Rightarrow> 'a list" where
  "non_null [] = []"
| "non_null (None # bs) = non_null bs"
| "non_null (Some b # bs) = b # non_null bs"

text \<open>\<open>first_stop f p n\<close>: a reader of \<open>f\<close> that has pulled \<open>p\<close> batches reports running
  for \<open>n\<close> more pulls and not running after them.\<close>

fun first_stop :: "recording \<Rightarrow> nat \<Rightarrow> nat \<Rightarrow> bool" where
  "first_stop f p 0 = (\<not> running f p)"
| "first_stop f p (Suc n) = (running f p \<and> first_stop f (Suc p) n)"

text \<open>Sample data: three events, and a recording that delivers them in two batches with a
  null batch in between and stops after the third pull.\<close>

abbreviation ev :: "int \<Rightarrow> int \<Rightarrow> int \<Rightarrow> bool \<Rightarrow> event" where
  "ev t a b p \<equiv> \<lparr>timestamp = t, x = a, y = b, polarity = p\<rparr>"

definition sample_recording :: recording where
  "sample_recording =
     \<lparr>eventStreamAvailable = True,
      batches = (\<lambda>k. if k = 0 then Some [ev 100 130 90 True, ev 150 10 20 False]
                     else if k = 2 then Some [ev 300 200 100 True]
                     else None),
      running = (\<lambda>k. k < 3)\<rparr>"

section \<open>Properties\<close>

subsection \<open>The crop origin\<close>









text \<open>Beyond the range of floats the call raises.\<close>

lemma calculate_crop_origin_overflows:
  "calculate_crop_origin (2 ^ 1024, 0) 2 2 = Inl OverflowError"
  by code_simp







subsection \<open>Statistics\<close>

lemma getitem_first: "ts \<noteq> [] \<Longrightarrow> getitem ts 0 = Inr (hd ts)"
  by (cases ts) (simp_all add: getitem_def)

lemma getitem_last: "ts \<noteq> [] \<Longrightarrow> getitem ts (- 1) = Inr (last ts)"
proof -
  assume ne: "ts \<noteq> []"
  then have "nat (int (length ts) + - 1) = length ts - 1"
    by (cases ts) simp_all
  with ne show ?thesis
    by (simp add: getitem_def last_conv_nth Suc_le_eq)
qed

lemma getitem_empty: "getitem [] i = Inl IndexError"
  by (simp add: getitem_def)

lemma duration_span:
  "events \<noteq> [] \<Longrightarrow> duration events = timestamp (last events) - timestamp (hd events)"
  by (cases events) (simp_all add: duration_def)

lemma events_info_nonempty:
  assumes "events \<noteq> []"
  shows "events_info events =
     Inr [''duration'' \<mapsto> timestamp (last events) - timestamp (hd events),
          ''first timestamp'' \<mapsto> timestamp (hd events),
          ''last timestamp'' \<mapsto> timestamp (last events),
          ''events count'' \<mapsto> int (length events)]"
proof -
  from assms have ne: "timestamps events \<noteq> []"
    by (simp add: timestamps_def)
  have "hd (timestamps events) = timestamp (hd events)"
    using assms by (simp add: timestamps_def hd_map)
  moreover have "last (timestamps events) = timestamp (last events)"
    using assms by (simp add: timestamps_def last_map)
  ultimately show ?thesis
    using assms
    by (simp add: events_info_def getitem_first [OF ne] getitem_last [OF ne]
        duration_span size_store_def)
qed

text \<open>
  C4: for every non-empty event store, \<open>events_info\<close> returns a dictionary with exactly the
  keys \<open>duration\<close>, \<open>first timestamp\<close>, \<open>last timestamp\<close> and \<open>events count\<close>, holding the
  span between the first and the last timestamp, the first timestamp, the last timestamp
  and the size of the store; for timestamps \<open>[100, 150, 300]\<close> it holds 200, 100, 300
  and 3.
\<close>

theorem events_info_stats:
  assumes "events \<noteq> []"
  shows "\<exists>stats. events_info events = Inr stats
     \<and> dom stats = {''duration'', ''first timestamp'', ''last timestamp'', ''events count''}
     \<and> stats ''first timestamp'' = Some (hd (timestamps events))
     \<and> stats ''last timestamp'' = Some (last (timestamps events))
     \<and> stats ''duration'' = Some (last (timestamps events) - hd (timestamps events))
     \<and> stats ''events count'' = Some (int (size_store events))
     \<and> (timestamps events = [100, 150, 300] \<longrightarrow>
          stats = [''duration'' \<mapsto> 200, ''first timestamp'' \<mapsto> 100,
                   ''last timestamp'' \<mapsto> 300, ''events count'' \<mapsto> 3])"
proof -
  let ?stats = "[''duration'' \<mapsto> timestamp (last events) - timestamp (hd events),
          ''first timestamp'' \<mapsto> timestamp (hd events),
          ''last timestamp'' \<mapsto> timestamp (last events),
          ''events count'' \<mapsto> int (length events)]"
  have h: "hd (timestamps events) = timestamp (hd events)"
    using assms by (simp add: timestamps_def hd_map)
  have l: "last (timestamps events) = timestamp (last events)"
    using assms by (simp add: timestamps_def last_map)
  have len: "length (timestamps events) = length events"
    by (simp add: timestamps_def)
  have d: "dom ?stats = {''duration'', ''first timestamp'', ''last timestamp'', ''events count''}"
    by auto
  have ex: "?stats = [''duration'' \<mapsto> 200, ''first timestamp'' \<mapsto> 100,
                   ''last timestamp'' \<mapsto> 300, ''events count'' \<mapsto> 3]"
    if "timestamps events = [100, 150, 300]"
  proof -
    from that h l have "timestamp (hd events) = 100" "timestamp (last events) = 300"
      by simp_all
    moreover from that len have "length events = 3"
      by (metis length_Cons list.size(3) numeral_3_eq_3)
    ultimately show ?thesis by simp
  qed
  show ?thesis
    apply (rule exI [of _ ?stats])
    apply (intro conjI)
    subgoal by (rule events_info_nonempty [OF assms])
    subgoal by (rule d)
    subgoal by (simp add: h)
    subgoal by (simp add: l)
    subgoal by (simp add: h l)
    subgoal by (simp add: size_store_def)
    subgoal using ex by blast
    done
qed

theorem events_info_stats_witness:
  "\<exists>stats. events_info [ev 100 1 2 True, ev 150 3 4 False, ev 300 5 6 True] = Inr stats
     \<and> stats = [''duration'' \<mapsto> 200, ''first timestamp'' \<mapsto> 100,
                ''last timestamp'' \<mapsto> 300, ''events count'' \<mapsto> 3]"
proof -
  let ?es = "[ev 100 1 2 True, ev 150 3 4 False, ev 300 5 6 True]"
  have ne: "?es \<noteq> []" by simp
  have ts: "timestamps ?es = [100, 150, 300]"
    by (simp add: timestamps_def)
  from events_info_stats [OF ne] ts show ?thesis
    by blast
qed

text \<open>
  C5: on a non-empty event store \<open>events_info\<close> returns its dictionary, no subscript going
  out of range; on the empty store it raises \<open>IndexError\<close>; and whenever it raises, the
  error is the one of the first-timestamp subscript, which nothing guards.
\<close>

theorem events_info_precondition:
  "(events \<noteq> [] \<longrightarrow> (\<exists>stats. events_info events = Inr stats))
   \<and> (events = [] \<longrightarrow> events_info events = Inl IndexError)
   \<and> (events_info events = Inl IndexError \<longrightarrow>
        getitem (timestamps events) 0 = Inl IndexError)"
proof (intro conjI impI)
  assume "events \<noteq> []"
  then show "\<exists>stats. events_info events = Inr stats"
    by (simp add: events_info_nonempty)
next
  assume "events = []"
  then show "events_info events = Inl IndexError"
    by (simp add: events_info_def timestamps_def getitem_empty)
next
  assume e: "events_info events = Inl IndexError"
  have "events = []"
  proof (rule ccontr)
    assume "events \<noteq> []"
    then have "\<exists>stats. events_info events = Inr stats"
      by (simp add: events_info_nonempty)
    with e show False by simp
  qed
  then show "getitem (timestamps events) 0 = Inl IndexError"
    by (simp add: timestamps_def getitem_empty)
qed

theorem events_info_precondition_witness:
  "(\<exists>stats. events_info [ev 7 0 0 True] = Inr stats) \<and> events_info [] = Inl IndexError
   \<and> getitem (timestamps []) 0 = Inl IndexError"
  using events_info_precondition [of "[ev 7 0 0 True]"] events_info_precondition [of "[]"]
  by simp


subsection \<open>The two loops\<close>

lemma first_stop_iff:
  "first_stop f p n \<longleftrightarrow> (\<forall>k<n. running f (p + k)) \<and> \<not> running f (p + n)"
proof (induction n arbitrary: p)
  case 0
  show ?case by simp
next
  case (Suc n)
  have "(\<forall>k<Suc n. running f (p + k)) \<longleftrightarrow> running f p \<and> (\<forall>k<n. running f (Suc p + k))"
    by (auto simp: less_Suc_eq_0_disj)
  with Suc show ?case by simp
qed

lemma first_stop_exists: "\<not> running f (p + m) \<Longrightarrow> \<exists>n\<le>m. first_stop f p n"
proof (induction m arbitrary: p)
  case 0
  then have "first_stop f p 0" by simp
  then show ?case by blast
next
  case (Suc m)
  show ?case
  proof (cases "running f p")
    case False
    then have "first_stop f p 0" by simp
    then show ?thesis by blast
  next
    case True
    from Suc.prems have "\<not> running f (Suc p + m)" by simp
    from Suc.IH [OF this] obtain n where "n \<le> m" "first_stop f (Suc p) n" by blast
    with True have "Suc n \<le> Suc m" "first_stop f p (Suc n)" by simp_all
    then show ?thesis by blast
  qed
qed

lemma first_stop_unique: "first_stop f p k \<Longrightarrow> first_stop f p k' \<Longrightarrow> k = k'"
proof (induction k arbitrary: p k')
  case 0
  then show ?case by (cases k') simp_all
next
  case (Suc k)
  then show ?case by (cases k') auto
qed

lemma get_events_loop_stop:
  "pulled dat = p \<Longrightarrow> first_stop (source dat) p n \<Longrightarrow>
   get_events_loop dat acc = Some (acc @ concat (non_null (pulled_batches (source dat) p n)))"
proof (induction n arbitrary: dat p acc)
  case 0
  then show ?case
    by (subst get_events_loop.simps) (simp add: isRunning_def)
next
  case (Suc n)
  let ?d' = "dat\<lparr>pulled := Suc (pulled dat)\<rparr>"
  from Suc.prems have run: "isRunning dat" and stop: "first_stop (source ?d') (Suc p) n"
    by (simp_all add: isRunning_def)
  have IH: "get_events_loop (dat\<lparr>pulled := Suc p\<rparr>) a =
      Some (a @ concat (non_null (pulled_batches (source dat) (Suc p) n)))" for a
    using Suc.IH [of ?d' "Suc p" a] stop Suc.prems(1) by simp
  show ?case
    using run Suc.prems(1)
    by (subst get_events_loop.simps)
       (simp add: getNextEventBatch_def IH add_def split: option.split)
qed

lemma get_events_loop_Some_stops:
  "get_events_loop dat acc = Some es \<Longrightarrow> \<exists>n. \<not> running (source dat) (pulled dat + n)"
proof (induction dat acc es
    rule: get_events_loop.raw_induct [rotated 1, consumes 1, case_names step])
  case (step loop dat events res)
  show ?case
  proof (cases "isRunning dat")
    case False
    then have "\<not> running (source dat) (pulled dat + 0)" by (simp add: isRunning_def)
    then show ?thesis by blast
  next
    case True
    let ?d' = "dat\<lparr>pulled := Suc (pulled dat)\<rparr>"
    from True step(2) obtain a where "loop ?d' a = Some res"
      by (auto simp: getNextEventBatch_def split: option.splits)
    from step(1) [OF this] obtain n where "\<not> running (source dat) (Suc (pulled dat) + n)"
      by auto
    then have "\<not> running (source dat) (pulled dat + Suc n)" by simp
    then show ?thesis by blast
  qed
qed

lemma generateEvents_fresh:
  "generateEvents (accept (EventRegionFilter r) b) = (filter (retain r) b, EventRegionFilter r)"
  by (simp add: generateEvents_def accept_def EventRegionFilter_def add_def EventStore_def)

lemma crop_loop_stop:
  "pulled dat = p \<Longrightarrow> first_stop (source dat) p n \<Longrightarrow>
   crop_loop dat (EventRegionFilter r) acc =
     Some (acc @ concat (map (filter (retain r)) (non_null (pulled_batches (source dat) p n))))"
proof (induction n arbitrary: dat p acc)
  case 0
  then show ?case
    by (subst crop_loop.simps) (simp add: isRunning_def)
next
  case (Suc n)
  let ?d' = "dat\<lparr>pulled := Suc (pulled dat)\<rparr>"
  let ?rest = "concat (map (filter (retain r)) (non_null (pulled_batches (source dat) (Suc p) n)))"
  from Suc.prems have run: "isRunning dat" and stop: "first_stop (source ?d') (Suc p) n"
    by (simp_all add: isRunning_def)
  have IH: "crop_loop (dat\<lparr>pulled := Suc p\<rparr>) (EventRegionFilter r) a = Some (a @ ?rest)" for a
    using Suc.IH [of ?d' "Suc p" a] stop Suc.prems(1) by simp
  show ?case
  proof (cases "batches (source dat) p")
    case None
    with run Suc.prems(1) show ?thesis
      by (subst crop_loop.simps) (simp add: getNextEventBatch_def IH)
  next
    case (Some b)
    with run Suc.prems(1) show ?thesis
      by (subst crop_loop.simps)
         (simp add: getNextEventBatch_def generateEvents_fresh IH add_def size_store_def)
  qed
qed

lemma crop_loop_Some_stops:
  "crop_loop dat rf acc = Some es \<Longrightarrow> \<exists>n. \<not> running (source dat) (pulled dat + n)"
proof (induction dat rf acc es
    rule: crop_loop.raw_induct [rotated 1, consumes 1, case_names step])
  case (step loop dat rf cropped res)
  show ?case
  proof (cases "isRunning dat")
    case False
    then have "\<not> running (source dat) (pulled dat + 0)" by (simp add: isRunning_def)
    then show ?thesis by blast
  next
    case True
    let ?d' = "dat\<lparr>pulled := Suc (pulled dat)\<rparr>"
    from True step(2) obtain rf' a where "loop ?d' rf' a = Some res"
      by (auto simp: getNextEventBatch_def split: option.splits prod.splits if_splits)
    from step(1) [OF this] obtain n where "\<not> running (source dat) (Suc (pulled dat) + n)"
      by auto
    then have "\<not> running (source dat) (pulled dat + Suc n)" by simp
    then show ?thesis by blast
  qed
qed

lemma crop_loop_terminates:
  "\<not> running (source dat) (pulled dat + n) \<Longrightarrow> \<exists>cropped. crop_loop dat rf acc = Some cropped"
proof (induction n arbitrary: dat rf acc)
  case 0
  then show ?case
    by (subst crop_loop.simps) (simp add: isRunning_def)
next
  case (Suc n)
  let ?d' = "dat\<lparr>pulled := Suc (pulled dat)\<rparr>"
  from Suc.prems have "\<not> running (source ?d') (pulled ?d' + n)" by simp
  from Suc.IH [OF this] have IH: "\<exists>cropped. crop_loop ?d' rf' a = Some cropped" for rf' a .
  show ?case
    by (subst crop_loop.simps)
       (simp add: getNextEventBatch_def IH split: option.split prod.split)
qed

lemma get_events_loop_terminates:
  "\<not> running (source dat) (pulled dat + n) \<Longrightarrow> \<exists>events. get_events_loop dat acc = Some events"
proof -
  assume "\<not> running (source dat) (pulled dat + n)"
  then obtain m where "first_stop (source dat) (pulled dat) m"
    using first_stop_exists by blast
  then show ?thesis
    by (simp add: get_events_loop_stop)
qed

lemma sorted_hd_le_last:
  fixes ts :: "int list"
  shows "sorted ts \<Longrightarrow> ts \<noteq> [] \<Longrightarrow> hd ts \<le> last ts"
  by (cases ts) auto

lemma length_concat_sum: "length (concat bs) = sum_list (map length bs)"
  by (induction bs) simp_all

lemma get_events_loop_None:
  "\<forall>n. running (source dat) (pulled dat + n) \<Longrightarrow> get_events_loop dat acc = None"
  using get_events_loop_Some_stops [of dat acc] by (cases "get_events_loop dat acc") auto

lemma crop_loop_None:
  "\<forall>n. running (source dat) (pulled dat + n) \<Longrightarrow> crop_loop dat rf acc = None"
  using crop_loop_Some_stops [of dat rf acc] by (cases "crop_loop dat rf acc") auto

lemma get_events_from_open:
  "first_stop f 0 n \<Longrightarrow>
   get_events_from (MonoCameraRecording f) = Some (concat (non_null (pulled_batches f 0 n)))"
  using get_events_loop_stop [of "MonoCameraRecording f" 0 n EventStore]
  by (simp add: get_events_from_def MonoCameraRecording_def EventStore_def)

lemma crop_loop_open:
  "first_stop f 0 n \<Longrightarrow>
   crop_loop (MonoCameraRecording f) (EventRegionFilter r) EventStore =
     Some (filter (retain r) (concat (non_null (pulled_batches f 0 n))))"
  using crop_loop_stop [of "MonoCameraRecording f" 0 n r EventStore]
  by (simp add: MonoCameraRecording_def EventStore_def filter_concat)

lemma load_data_from_reader: "fst (load_data_from lg f) = MonoCameraRecording f"
  by (simp add: load_data_from_def Let_def)

lemma crop_area_raises:
  "calculate_crop_origin c w h = Inl e \<Longrightarrow> crop_area lg f c w h = Some (Inl e)"
  by (simp add: crop_area_def)

lemma crop_area_all_event_streams_raises:
  "calculate_crop_origin c w h = Inl e \<Longrightarrow>
   crop_area_all_event_streams lg f c w h = Some (Inl e)"
  by (simp add: crop_area_all_event_streams_def)

lemma crop_area_stop:
  "first_stop f 0 n \<Longrightarrow> calculate_crop_origin c w h = Inr (ox, oy) \<Longrightarrow>
   crop_area lg f c w h =
     Some (Inr (filter (retain (ox, oy, w, h)) (concat (non_null (pulled_batches f 0 n))),
                snd (load_data_from lg f)))"
  using load_data_from_reader [of lg f]
  by (simp add: crop_area_def Let_def split_beta get_events_from_open generateEvents_fresh)

lemma crop_area_all_event_streams_stop:
  "first_stop f 0 n \<Longrightarrow> calculate_crop_origin c w h = Inr (ox, oy) \<Longrightarrow>
   crop_area_all_event_streams lg f c w h =
     Some (Inr (filter (retain (ox, oy, w, h)) (concat (non_null (pulled_batches f 0 n))),
                snd (load_data_from lg f)))"
  using load_data_from_reader [of lg f]
  by (simp add: crop_area_all_event_streams_def Let_def split_beta crop_loop_open)

lemma crop_area_endless:
  "\<forall>n. running f n \<Longrightarrow> calculate_crop_origin c w h = Inr o' \<Longrightarrow>
   crop_area lg f c w h = None"
  using load_data_from_reader [of lg f]
    get_events_loop_None [of "MonoCameraRecording f" EventStore]
  by (simp add: crop_area_def Let_def split_beta get_events_from_def MonoCameraRecording_def)

lemma crop_area_all_event_streams_endless:
  "\<forall>n. running f n \<Longrightarrow> calculate_crop_origin c w h = Inr o' \<Longrightarrow>
   crop_area_all_event_streams lg f c w h = None"
  using load_data_from_reader [of lg f]
    crop_loop_None [of "MonoCameraRecording f"]
  by (simp add: crop_area_all_event_streams_def Let_def split_beta MonoCameraRecording_def)

text \<open>The sample recording, evaluated.\<close>

lemma sample_first_stop: "first_stop sample_recording 0 (Suc (Suc (Suc 0)))"
  by (simp add: sample_recording_def)

lemma sample_stream:
  "concat (non_null (pulled_batches sample_recording 0 (Suc (Suc (Suc 0))))) =
     [ev 100 130 90 True, ev 150 10 20 False, ev 300 200 100 True]"
  by (simp add: sample_recording_def)

lemma sample_origin: "calculate_crop_origin (173, 130) 100 100 = Inr (123, 80)"
  by code_simp

lemma sample_crop_area:
  "crop_area [] sample_recording (173, 130) 100 100 =
     Some (Inr ([ev 100 130 90 True, ev 300 200 100 True], []))"
proof -
  have l: "load_data_from [] sample_recording = (MonoCameraRecording sample_recording, [])"
    by (simp add: load_data_from_def isEventStreamAvailable_def MonoCameraRecording_def
        sample_recording_def)
  have "crop_area [] sample_recording (173, 130) 100 100 =
      Some (Inr (filter (retain (123, 80, 100, 100))
             [ev 100 130 90 True, ev 150 10 20 False, ev 300 200 100 True], []))"
    by (simp only: crop_area_stop [OF sample_first_stop sample_origin] sample_stream l snd_conv)
  then show ?thesis
    by (simp add: retain_def)
qed

text \<open>
  C1: for every recording and every crop rectangle, the post-hoc variant \<open>crop_area\<close> and
  the streaming variant \<open>crop_area_all_event_streams\<close> have the same outcome. When the
  reader of the recording stops after finitely many pulls, both return, and return the same
  event store (the same events in the same order, hence the same size and the same
  timestamp sequence), unless the crop origin cannot be computed, in which case both raise
  its error; on an endless recording neither returns.
\<close>

theorem crop_variants_agree:
  "crop_area lg f c w h = crop_area_all_event_streams lg f c w h
   \<and> (\<not> running f n \<longrightarrow>
        (case calculate_crop_origin c w h of
           Inl e \<Rightarrow> crop_area lg f c w h = Some (Inl e)
         | Inr crop_origin \<Rightarrow> (\<exists>events lg'. crop_area lg f c w h = Some (Inr (events, lg')))))"
proof
  show "crop_area lg f c w h = crop_area_all_event_streams lg f c w h"
  proof (cases "calculate_crop_origin c w h")
    case (Inl e)
    then show ?thesis
      by (simp add: crop_area_raises crop_area_all_event_streams_raises)
  next
    case (Inr crop_origin)
    then have o: "calculate_crop_origin c w h = Inr (fst crop_origin, snd crop_origin)"
      by simp
    show ?thesis
    proof (cases "\<exists>m. \<not> running f m")
      case True
      then obtain m where "\<not> running f (0 + m)" by auto
      then obtain k where "first_stop f 0 k"
        using first_stop_exists by blast
      then show ?thesis
        by (simp add: crop_area_stop [OF _ o] crop_area_all_event_streams_stop [OF _ o])
    next
      case False
      then have "\<forall>n. running f n" by simp
      then show ?thesis
        by (simp add: crop_area_endless [OF _ o] crop_area_all_event_streams_endless [OF _ o])
    qed
  qed
next
  show "\<not> running f n \<longrightarrow>
        (case calculate_crop_origin c w h of
           Inl e \<Rightarrow> crop_area lg f c w h = Some (Inl e)
         | Inr crop_origin \<Rightarrow> (\<exists>events lg'. crop_area lg f c w h = Some (Inr (events, lg'))))"
  proof
    assume "\<not> running f n"
    then have "\<not> running f (0 + n)" by simp
    then obtain k where k: "first_stop f 0 k"
      using first_stop_exists by blast
    show "case calculate_crop_origin c w h of
           Inl e \<Rightarrow> crop_area lg f c w h = Some (Inl e)
         | Inr crop_origin \<Rightarrow> (\<exists>events lg'. crop_area lg f c w h = Some (Inr (events, lg')))"
    proof (cases "calculate_crop_origin c w h")
      case (Inl e)
      then show ?thesis
        by (simp add: crop_area_raises)
    next
      case (Inr crop_origin)
      then have o: "calculate_crop_origin c w h = Inr (fst crop_origin, snd crop_origin)"
        by simp
      show ?thesis
        by (simp add: Inr crop_area_stop [OF k o])
    qed
  qed
qed

theorem crop_variants_agree_witness:
  "crop_area_all_event_streams [] sample_recording (173, 130) 100 100 =
     Some (Inr ([ev 100 130 90 True, ev 300 200 100 True], []))
   \<and> (\<exists>events lg'. crop_area [] sample_recording (173, 130) 100 100 = Some (Inr (events, lg')))"
proof -
  have nr: "\<not> running sample_recording 3"
    by (simp add: sample_recording_def)
  note r = crop_variants_agree [of "[]" sample_recording "(173, 130)" 100 100 3]
  from r [THEN conjunct1]
  have e: "crop_area [] sample_recording (173, 130) 100 100 =
      crop_area_all_event_streams [] sample_recording (173, 130) 100 100" .
  from r [THEN conjunct2, THEN mp, OF nr]
  have "\<exists>events lg'. crop_area [] sample_recording (173, 130) 100 100 = Some (Inr (events, lg'))"
    by (simp add: sample_origin)
  with e sample_crop_area show ?thesis
    by simp
qed

subsection \<open>Aggregation, cropping, loading\<close>

text \<open>
  C6: for every reader that reports running for \<open>n\<close> more pulls and not running after
  them, \<open>get_events_from\<close> returns the non-null batches of these \<open>n\<close> pulls appended in
  arrival order; the size of the result is the sum of the sizes of these batches; and when
  the result is non-empty and its timestamps are non-decreasing, its last timestamp is at
  least its first.
\<close>

theorem get_events_from_aggregates:
  assumes "first_stop (source dat) (pulled dat) n"
  shows "\<exists>events. get_events_from dat = Some events
     \<and> events = concat (non_null (pulled_batches (source dat) (pulled dat) n))
     \<and> size_store events =
         sum_list (map size_store (non_null (pulled_batches (source dat) (pulled dat) n)))
     \<and> (events \<noteq> [] \<and> sorted (timestamps events) \<longrightarrow>
          hd (timestamps events) \<le> last (timestamps events))"
proof -
  let ?bs = "non_null (pulled_batches (source dat) (pulled dat) n)"
  have r: "get_events_from dat = Some (concat ?bs)"
    using get_events_loop_stop [OF refl assms, of EventStore]
    by (simp add: get_events_from_def EventStore_def)
  have s: "size_store (concat ?bs) = sum_list (map size_store ?bs)"
    using length_concat_sum [of ?bs] by (simp add: size_store_def [abs_def])
  have t: "hd (timestamps (concat ?bs)) \<le> last (timestamps (concat ?bs))"
    if "concat ?bs \<noteq> []" "sorted (timestamps (concat ?bs))"
    using that by (intro sorted_hd_le_last) (simp_all add: timestamps_def)
  from r s t show ?thesis
    by blast
qed

theorem get_events_from_aggregates_witness:
  "\<exists>events. get_events_from (MonoCameraRecording sample_recording) = Some events
     \<and> events = [ev 100 130 90 True, ev 150 10 20 False, ev 300 200 100 True]
     \<and> size_store events = 3
     \<and> hd (timestamps events) \<le> last (timestamps events)"
proof -
  let ?d = "MonoCameraRecording sample_recording"
  have p: "source ?d = sample_recording" "pulled ?d = 0"
    by (simp_all add: MonoCameraRecording_def)
  have "first_stop (source ?d) (pulled ?d) (Suc (Suc (Suc 0)))"
    by (simp only: p sample_first_stop)
  from get_events_from_aggregates [OF this]
  obtain events where e: "get_events_from ?d = Some events"
      "events = concat (non_null (pulled_batches sample_recording 0 (Suc (Suc (Suc 0)))))"
      "events \<noteq> [] \<and> sorted (timestamps events) \<longrightarrow>
          hd (timestamps events) \<le> last (timestamps events)"
    unfolding p by blast
  from e(2) have v: "events = [ev 100 130 90 True, ev 150 10 20 False, ev 300 200 100 True]"
    by (simp only: sample_stream)
  then have "events \<noteq> []" "sorted (timestamps events)" "size_store events = 3"
    by (simp_all add: timestamps_def size_store_def)
  with e(1) e(3) v show ?thesis
    by blast
qed

text \<open>
  C7: for every recording whose reader stops and every crop rectangle (whatever its size),
  \<open>crop_area\<close> returns no more events than the full aggregated stream of the same
  recording holds; the cropped store is the full one with events removed, none added, none
  repeated, none reordered. The one call that returns no store is the one whose crop origin
  cannot be computed, which raises the error of the origin.
\<close>

theorem crop_area_removes_only:
  assumes "\<not> running aedat4_file n"
  shows "case calculate_crop_origin center crop_width crop_height of
       Inl e \<Rightarrow> crop_area lg aedat4_file center crop_width crop_height = Some (Inl e)
     | Inr crop_origin \<Rightarrow>
         (\<exists>cropped full lg'.
             crop_area lg aedat4_file center crop_width crop_height = Some (Inr (cropped, lg'))
           \<and> get_events_from (fst (load_data_from lg aedat4_file)) = Some full
           \<and> size_store cropped \<le> size_store full
           \<and> subseq cropped full)"
proof (cases "calculate_crop_origin center crop_width crop_height")
  case (Inl e)
  then show ?thesis
    by (simp add: crop_area_raises)
next
  case (Inr crop_origin)
  then have o: "calculate_crop_origin center crop_width crop_height =
      Inr (fst crop_origin, snd crop_origin)"
    by simp
  from assms have "\<not> running aedat4_file (0 + n)" by simp
  then obtain k where k: "first_stop aedat4_file 0 k"
    using first_stop_exists by blast
  show ?thesis
    by (simp add: Inr crop_area_stop [OF k o] load_data_from_reader get_events_from_open [OF k]
        size_store_def)
qed

theorem crop_area_removes_only_witness:
  "\<exists>cropped full lg'.
       crop_area [] sample_recording (173, 130) 100 100 = Some (Inr (cropped, lg'))
     \<and> cropped = [ev 100 130 90 True, ev 300 200 100 True]
     \<and> get_events_from (fst (load_data_from [] sample_recording)) = Some full
     \<and> size_store cropped \<le> size_store full
     \<and> subseq cropped full"
proof -
  have "\<not> running sample_recording 3"
    by (simp add: sample_recording_def)
  from crop_area_removes_only [OF this, where lg = "[]" and center = "(173, 130)"
      and crop_width = 100 and crop_height = 100] sample_crop_area
  show ?thesis
    by (auto simp: sample_origin)
qed

lemma first_stop_flag:
  "first_stop (f\<lparr>eventStreamAvailable := b\<rparr>) p n = first_stop f p n"
  by (induction n arbitrary: p) simp_all

lemma pulled_batches_flag:
  "pulled_batches (f\<lparr>eventStreamAvailable := b\<rparr>) p n = pulled_batches f p n"
  by (induction n arbitrary: p) simp_all

lemma get_events_from_flag:
  "get_events_from (MonoCameraRecording (f\<lparr>eventStreamAvailable := b\<rparr>)) =
   get_events_from (MonoCameraRecording f)"
proof (cases "\<exists>m. \<not> running f m")
  case True
  then obtain m where "\<not> running f (0 + m)" by auto
  then obtain k where k: "first_stop f 0 k"
    using first_stop_exists by blast
  then have "first_stop (f\<lparr>eventStreamAvailable := b\<rparr>) 0 k"
    by (simp add: first_stop_flag)
  from get_events_from_open [OF this] get_events_from_open [OF k] show ?thesis
    by (simp add: pulled_batches_flag)
next
  case False
  then have "\<forall>n. running f n" by simp
  then show ?thesis
    using get_events_loop_None [of "MonoCameraRecording f" EventStore]
      get_events_loop_None [of "MonoCameraRecording (f\<lparr>eventStreamAvailable := b\<rparr>)" EventStore]
    by (simp add: get_events_from_def MonoCameraRecording_def)
qed

text \<open>
  C9: for every recording whose reader reports no event stream available, \<open>load_data_from\<close>
  appends exactly one record of level CRITICAL to the log and returns the opened reader; the
  aggregation that follows runs on that reader as it would had the stream been reported
  available.
\<close>

theorem load_data_from_missing_stream:
  assumes "\<not> eventStreamAvailable aedat4_file"
  shows "load_data_from lg aedat4_file =
       (MonoCameraRecording aedat4_file, lg @ [(CRITICAL, no_event_stream_message)])
     \<and> get_events_from (fst (load_data_from lg aedat4_file)) =
       get_events_from (MonoCameraRecording (aedat4_file\<lparr>eventStreamAvailable := True\<rparr>))"
  using assms
  by (simp add: load_data_from_def Let_def isEventStreamAvailable_def MonoCameraRecording_def
      critical_def logger_level_def INFO_def CRITICAL_def
      get_events_from_flag [unfolded MonoCameraRecording_def])

theorem load_data_from_missing_stream_witness:
  "load_data_from [] (sample_recording\<lparr>eventStreamAvailable := False\<rparr>) =
     (MonoCameraRecording (sample_recording\<lparr>eventStreamAvailable := False\<rparr>),
      [(50, no_event_stream_message)])
   \<and> get_events_from (fst (load_data_from [] (sample_recording\<lparr>eventStreamAvailable := False\<rparr>))) =
     Some [ev 100 130 90 True, ev 150 10 20 False, ev 300 200 100 True]"
proof -
  let ?f = "sample_recording\<lparr>eventStreamAvailable := False\<rparr>"
  have a: "\<not> eventStreamAvailable ?f" by simp
  have t: "?f\<lparr>eventStreamAvailable := True\<rparr> = sample_recording"
    by (simp add: sample_recording_def)
  have g: "get_events_from (MonoCameraRecording sample_recording) =
      Some [ev 100 130 90 True, ev 150 10 20 False, ev 300 200 100 True]"
    by (simp only: get_events_from_open [OF sample_first_stop] sample_stream)
  note r = load_data_from_missing_stream [OF a, of "[]"]
  from r [THEN conjunct1]
  have "load_data_from [] ?f = (MonoCameraRecording ?f, [(50, no_event_stream_message)])"
    by (simp add: CRITICAL_def)
  moreover from r [THEN conjunct2] have "get_events_from (fst (load_data_from [] ?f)) =
      Some [ev 100 130 90 True, ev 150 10 20 False, ev 300 200 100 True]"
    by (simp only: t g)
  ultimately show ?thesis
    by (rule conjI)
qed

text \<open>
  C10: for every reader whose \<open>isRunning\<close> answer becomes false within \<open>n\<close> further pulls,
  the aggregation loop of \<open>get_events_from\<close> and the per-batch loop of
  \<open>crop_area_all_event_streams\<close> both end, at the first pull count \<open>k\<close> at which the
  reader reports not running, and each returns its fully built store: the accumulator
  followed by all the non-null batches of these \<open>k\<close> pulls, in order (for the cropping loop,
  each batch filtered by the rectangle). The cropping loop ends from any state of the
  region filter.
\<close>

theorem loops_terminate:
  assumes "\<not> running (source dat) (pulled dat + n)"
  shows "\<exists>k\<le>n. first_stop (source dat) (pulled dat) k
     \<and> get_events_loop dat acc =
         Some (acc @ concat (non_null (pulled_batches (source dat) (pulled dat) k)))
     \<and> get_events_from dat =
         Some (concat (non_null (pulled_batches (source dat) (pulled dat) k)))
     \<and> crop_loop dat (EventRegionFilter r) acc' =
         Some (acc' @ concat (map (filter (retain r))
                 (non_null (pulled_batches (source dat) (pulled dat) k))))
     \<and> (\<exists>cropped. crop_loop dat rf acc' = Some cropped)"
proof -
  from assms obtain k where k: "k \<le> n" "first_stop (source dat) (pulled dat) k"
    using first_stop_exists by blast
  have "get_events_from dat =
      Some (concat (non_null (pulled_batches (source dat) (pulled dat) k)))"
    using get_events_loop_stop [OF refl k(2), of EventStore]
    by (simp add: get_events_from_def EventStore_def)
  with k crop_loop_terminates [OF assms, of rf acc'] show ?thesis
    using get_events_loop_stop [OF refl k(2), of acc] crop_loop_stop [OF refl k(2), of r acc']
    by blast
qed

theorem loops_terminate_witness:
  "get_events_loop (MonoCameraRecording sample_recording) [ev 7 0 0 True] =
     Some [ev 7 0 0 True, ev 100 130 90 True, ev 150 10 20 False, ev 300 200 100 True]
   \<and> get_events_from (MonoCameraRecording sample_recording) =
     Some [ev 100 130 90 True, ev 150 10 20 False, ev 300 200 100 True]
   \<and> crop_loop (MonoCameraRecording sample_recording)
        (EventRegionFilter (123, 80, 100, 100)) [] =
     Some [ev 100 130 90 True, ev 300 200 100 True]"
proof -
  let ?d = "MonoCameraRecording sample_recording"
  let ?three = "Suc (Suc (Suc 0))"
  have p: "source ?d = sample_recording" "pulled ?d = 0"
    by (simp_all add: MonoCameraRecording_def)
  have "\<not> running (source ?d) (pulled ?d + 3)"
    by (simp add: MonoCameraRecording_def sample_recording_def)
  from loops_terminate [OF this, of "[ev 7 0 0 True]" "(123, 80, 100, 100)" "[]"]
  obtain k where k: "first_stop sample_recording 0 k"
    and g: "get_events_loop ?d [ev 7 0 0 True] =
         Some ([ev 7 0 0 True] @ concat (non_null (pulled_batches sample_recording 0 k)))"
    and f: "get_events_from ?d = Some (concat (non_null (pulled_batches sample_recording 0 k)))"
    and c: "crop_loop ?d (EventRegionFilter (123, 80, 100, 100)) [] =
         Some ([] @ concat (map (filter (retain (123, 80, 100, 100)))
                 (non_null (pulled_batches sample_recording 0 k))))"
    unfolding p by blast
  have "k = ?three"
    using k sample_first_stop by (rule first_stop_unique)
  with g f c show ?thesis
    by (simp add: sample_recording_def retain_def)
qed

end
